theory Spec2Isabelle
  imports Complex_Main "HOL-Library.Word"
begin

section \<open>Python values shared by the embedded functions\<close>

text \<open>
  Byte strings and decoded strings are both lists of \<^typ>\<open>char\<close> (code points below 256).
  A command argument is either one string or a list of strings, as the \<open>Union[list, str]\<close>
  annotations of the source say.
\<close>

datatype cmds = CStr string | CList "string list"

datatype error =
    AdbError string string cmds
  | TimeoutExpired
  | TypeError
  | UnicodeDecodeError
  | RecursionError
  | SystemExit
  | IndexError
  | KeyError
  | OverflowError
  | Cv2Error

text \<open>\<open>str.isspace\<close> on one character (code points below 256).\<close>

definition isspace :: "char \<Rightarrow> bool" where
  "isspace c = ((of_char c :: nat) \<in> {9, 10, 11, 12, 13, 28, 29, 30, 31, 32, 133, 160})"

definition lstrip :: "string \<Rightarrow> string" where
  "lstrip s = dropWhile isspace s"

definition rstrip :: "string \<Rightarrow> string" where
  "rstrip s = rev (dropWhile isspace (rev s))"

definition strip :: "string \<Rightarrow> string" where
  "strip s = lstrip (rstrip s)"

text \<open>\<open>sub in s\<close> on strings.\<close>

primrec str_in :: "string \<Rightarrow> string \<Rightarrow> bool" where
  "str_in sub [] = (sub = [])"
| "str_in sub (c # cs) = (take (length sub) (c # cs) = sub \<or> str_in sub cs)"

text \<open>\<open>str.split()\<close> without arguments: maximal runs of non-whitespace characters.\<close>

function py_split :: "string \<Rightarrow> string list" where
  "py_split s =
     (case dropWhile isspace s of
        [] \<Rightarrow> []
      | c # t \<Rightarrow> takeWhile (\<lambda>x. \<not> isspace x) (c # t)
                 # py_split (dropWhile (\<lambda>x. \<not> isspace x) (c # t)))"
  by pat_completeness auto
termination
proof (relation "measure length")
  show "wf (measure length)" by simp
next
  fix s :: string and c t
  assume d: "dropWhile isspace s = c # t"
  have nc: "\<not> isspace c"
    using d by (metis hd_dropWhile list.sel(1) list.distinct(1))
  have "length (dropWhile (\<lambda>x. \<not> isspace x) t) \<le> length t"
    by (rule length_dropWhile_le)
  with nc have "length (dropWhile (\<lambda>x. \<not> isspace x) (c # t)) < length (c # t)"
    by simp
  moreover have "length (c # t) \<le> length s"
    using d by (metis length_dropWhile_le)
  ultimately show "(dropWhile (\<lambda>x. \<not> isspace x) (c # t), s) \<in> measure length"
    by simp
qed

declare py_split.simps [simp del]

text \<open>\<open>split_cmd\<close> of the source: a string is split at whitespace, a list is copied.\<close>

definition split_cmd :: "cmds \<Rightarrow> string list" where
  "split_cmd c = (case c of CStr s \<Rightarrow> py_split s | CList l \<Rightarrow> l)"

section \<open>Launching the bridge tool\<close>

text \<open>
  What a child process does once launched: its two output streams, its return code, and
  whether \<open>communicate(timeout=...)\<close> runs into the timeout when one is given.
\<close>

record proc =
  stdout :: string
  stderr :: string
  returncode :: int
  timed_out :: bool

text \<open>The fields of the \<open>_ADB\<close> object that the embedded methods read.\<close>

record adb =
  device_id :: string
  cmd_options :: "string list"
  sdk_version :: int

text \<open>
  \<open>start_cmd\<close>. The environment \<open>exec\<close> says what the process launched with an argument
  vector does and how it changes the world \<open>'w\<close>. \<open>raise logger.error(...)\<close> raises the
  value \<open>None\<close> that \<open>logger.error\<close> returns, which Python turns into a \<open>TypeError\<close>.
\<close>

definition start_cmd ::
  "adb \<Rightarrow> (string list \<Rightarrow> 'w \<Rightarrow> proc \<times> 'w) \<Rightarrow> cmds \<Rightarrow> bool \<Rightarrow> 'w \<Rightarrow> (error + proc) \<times> 'w" where
  "start_cmd a exec c devices w =
     (let cs = split_cmd c in
      if devices then
        (if device_id a = [] then (Inl TypeError, w)
         else (let (p, w') = exec (cmd_options a @ [''-s'', device_id a] @ cs) w
               in (Inr p, w')))
      else (let (p, w') = exec (cmd_options a @ cs) w in (Inr p, w')))"

text \<open>
  Decoding of the two streams in \<open>cmd\<close>: \<open>dec\<close> is the codec chosen by
  \<open>get_std_encoding\<close>, \<open>None\<close> where it raises \<open>UnicodeDecodeError\<close>.
\<close>

definition decode_streams ::
  "(string \<Rightarrow> string option) \<Rightarrow> bool \<Rightarrow> proc \<Rightarrow> error + (string \<times> string)" where
  "decode_streams dec ensure_unicode p =
     (if ensure_unicode then
        (case dec (stdout p) of
           None \<Rightarrow> Inl UnicodeDecodeError
         | Some out \<Rightarrow>
             (case dec (stderr p) of
                None \<Rightarrow> Inl UnicodeDecodeError
              | Some err \<Rightarrow> Inr (out, err)))
      else Inr (stdout p, stderr p))"

text \<open>\<open>if timeout:\<close> is true for a timeout that is neither \<open>None\<close> nor 0.\<close>

definition timeout_given :: "int option \<Rightarrow> bool" where
  "timeout_given t = (case t of None \<Rightarrow> False | Some n \<Rightarrow> n \<noteq> 0)"

definition cmd ::
  "adb \<Rightarrow> (string list \<Rightarrow> 'w \<Rightarrow> proc \<times> 'w) \<Rightarrow> (string \<Rightarrow> string option) \<Rightarrow>
   cmds \<Rightarrow> bool \<Rightarrow> bool \<Rightarrow> int option \<Rightarrow> bool \<Rightarrow> 'w \<Rightarrow> (error + string) \<times> 'w" where
  "cmd a exec dec c devices ensure_unicode timeout skip_error w =
     (case start_cmd a exec c devices w of
        (Inl e, w') \<Rightarrow> (Inl e, w')
      | (Inr p, w') \<Rightarrow>
          if timeout_given timeout \<and> timed_out p then (Inl TimeoutExpired, w')
          else
            (case decode_streams dec ensure_unicode p of
               Inl e \<Rightarrow> (Inl e, w')
             | Inr (out, err) \<Rightarrow>
                 if returncode p > 0 then
                   (if \<not> skip_error then (Inl (AdbError out err c), w')
                    else (Inr out, w'))
                 else (Inr out, w')))"

text \<open>\<open>get_status\<close>: \<open>adb -s <device_id> get-state\<close>.\<close>

definition get_status ::
  "adb \<Rightarrow> (string list \<Rightarrow> 'w \<Rightarrow> proc \<times> 'w) \<Rightarrow> (string \<Rightarrow> string option) \<Rightarrow>
   'w \<Rightarrow> (error + string option) \<times> 'w" where
  "get_status a exec dec w =
     (case start_cmd a exec (CStr ''get-state'') True w of
        (Inl e, w') \<Rightarrow> (Inl e, w')
      | (Inr p, w') \<Rightarrow>
          (case decode_streams dec True p of
             Inl e \<Rightarrow> (Inl e, w')
           | Inr (out, err) \<Rightarrow>
               if returncode p = 0 then (Inr (Some (strip out)), w')
               else if str_in ''not found'' err then (Inr None, w')
               else (Inl (AdbError out err (CList [''get-state''])), w')))"

section \<open>Reserving a local port\<close>

text \<open>
  \<open>random.randint(a, b)\<close> on one unit \<open>r\<close> of randomness: a value of the closed range.
\<close>

definition randint :: "int \<Rightarrow> int \<Rightarrow> nat \<Rightarrow> int" where
  "randint a b r = a + int (r mod nat (b - a + 1))"

text \<open>
  \<open>get_available_forward_local\<close>. \<open>rnd k\<close> is the randomness of the \<open>k\<close>-th attempt and
  \<open>bind k port\<close> says whether \<open>sock.bind((host, port))\<close> succeeds at that attempt. The
  method calls itself after a failed bind; the first argument is the number of stack frames
  the interpreter still allows, and running out of them is Python's \<open>RecursionError\<close>.
\<close>

fun get_available_forward_local ::
  "nat \<Rightarrow> (nat \<Rightarrow> nat) \<Rightarrow> (nat \<Rightarrow> int \<Rightarrow> bool) \<Rightarrow> nat \<Rightarrow> error + int" where
  "get_available_forward_local 0 rnd bind k = Inl RecursionError"
| "get_available_forward_local (Suc depth) rnd bind k =
     (let port = randint 11111 20000 (rnd k) in
      if bind k port then Inr port
      else get_available_forward_local depth rnd bind (Suc k))"

section \<open>Display information\<close>

subsection \<open>Python floats\<close>











subsection \<open>Dictionaries\<close>








section \<open>The capture read loop\<close>

type_synonym byte = "8 word"

text \<open>
  \<open>frameBody\<close> starts as the empty \<open>str\<close> and becomes a \<open>bytes\<close> object in the branch that
  stores an incomplete frame.
\<close>

datatype body = EmptyStr | Bytes "byte list"

record banner =
  version :: nat
  length_f :: nat
  pid :: nat
  realWidth :: nat
  realHeight :: nat
  virtualWidth :: nat
  virtualHeight :: nat
  orientation :: nat
  quirks :: nat

record cap_state =
  readBannerBytes :: nat
  bannerLength :: nat
  readFrameBytes :: nat
  frameBodyLengthRemaining :: nat
  frameBody :: body
  banner :: banner

definition init_banner :: banner where
  "init_banner = \<lparr>version = 0, length_f = 0, pid = 0, realWidth = 0, realHeight = 0,
     virtualWidth = 0, virtualHeight = 0, orientation = 0, quirks = 0\<rparr>"

definition init_state :: cap_state where
  "init_state = \<lparr>readBannerBytes = 0, bannerLength = 2, readFrameBytes = 0,
     frameBodyLengthRemaining = 0, frameBody = EmptyStr, banner = init_banner\<rparr>"

text \<open>
  What the read loop of \<open>screencap\<close> has come to, once the socket is connected and the
  agent is started: still reading (the chunks received so far did not complete a frame),
  the image made from a frame (given here by the bytes of the frame), returned after the
  socket was closed, or an exception, which leaves the function without closing the
  socket. The \<open>cv2\<close> calls between the check of the frame and \<open>client_socket.close()\<close>
  are a parameter \<open>cv2_ok\<close>: whether \<open>imdecode\<close>, \<open>resize\<close> and \<open>imwrite\<close> get through
  the frame without raising \<open>cv2.error\<close>.
\<close>

datatype outcome = Reading cap_state | Frame "byte list" | Raised error

text \<open>The banner branch of the inner loop, for the byte at the cursor.\<close>

definition banner_byte :: "cap_state \<Rightarrow> byte \<Rightarrow> cap_state" where
  "banner_byte st b =
     (let n = readBannerBytes st;
          st' =
            (if n = 0 then st\<lparr>banner := (banner st)\<lparr>version := unat b\<rparr>\<rparr>
             else if n = 1 then
               st\<lparr>banner := (banner st)\<lparr>length_f := unat b\<rparr>, bannerLength := unat b\<rparr>
             else if 2 \<le> n \<and> n \<le> 5 then st\<lparr>banner := (banner st)\<lparr>pid := unat b\<rparr>\<rparr>
             else if n = 23 then st\<lparr>banner := (banner st)\<lparr>quirks := unat b\<rparr>\<rparr>
             else st)
      in st'\<lparr>readBannerBytes := n + 1\<rparr>)"

text \<open>The frame-length branch: four little-endian bytes.\<close>

definition length_byte :: "cap_state \<Rightarrow> byte \<Rightarrow> cap_state" where
  "length_byte st b =
     st\<lparr>frameBodyLengthRemaining :=
            frameBodyLengthRemaining st + push_bit (readFrameBytes st * 8) (unat b),
        readFrameBytes := readFrameBytes st + 1\<rparr>"

text \<open>\<open>list(frameBody)\<close>.\<close>

definition body_list :: "body \<Rightarrow> byte list" where
  "body_list fb = (case fb of EmptyStr \<Rightarrow> [] | Bytes bs \<Rightarrow> bs)"

text \<open>
  The check of the first two bytes of a completed frame. \<open>or\<close> evaluates its second
  operand only when the first is false; indexing past the end raises \<open>IndexError\<close>;
  \<open>exit()\<close> raises \<open>SystemExit\<close>. A frame that passes goes through the \<open>cv2\<close> calls.
\<close>

definition check_soi :: "(byte list \<Rightarrow> bool) \<Rightarrow> byte list \<Rightarrow> outcome" where
  "check_soi cv2_ok fb =
     (case fb of
        [] \<Rightarrow> Raised IndexError
      | b0 # r \<Rightarrow>
          if b0 \<noteq> 0xff then Raised SystemExit
          else (case r of
                  [] \<Rightarrow> Raised IndexError
                | b1 # r' \<Rightarrow>
                    if b1 \<noteq> 0xd8 then Raised SystemExit
                    else if cv2_ok fb then Frame fb
                    else Raised Cv2Error))"

text \<open>The frame-body branch, on the rest of the chunk from the cursor on.\<close>

definition body_bytes :: "(byte list \<Rightarrow> bool) \<Rightarrow> cap_state \<Rightarrow> byte list \<Rightarrow> outcome" where
  "body_bytes cv2_ok st rest =
     (if length rest \<ge> frameBodyLengthRemaining st then
        (case frameBody st of
           EmptyStr \<Rightarrow> Raised TypeError
         | Bytes bs \<Rightarrow> check_soi cv2_ok (bs @ take (frameBodyLengthRemaining st) rest))
      else
        Reading (st\<lparr>frameBody := Bytes (body_list (frameBody st) @ rest),
                     frameBodyLengthRemaining := frameBodyLengthRemaining st - length rest,
                     readFrameBytes := readFrameBytes st + length rest\<rparr>))"

text \<open>The inner loop \<open>while cursor < len(chunk)\<close>, on the bytes from the cursor on.\<close>

fun chunk_loop :: "(byte list \<Rightarrow> bool) \<Rightarrow> cap_state \<Rightarrow> byte list \<Rightarrow> outcome" where
  "chunk_loop cv2_ok st [] = Reading st"
| "chunk_loop cv2_ok st (b # bs) =
     (if readBannerBytes st < bannerLength st then chunk_loop cv2_ok (banner_byte st b) bs
      else if readFrameBytes st < 4 then chunk_loop cv2_ok (length_byte st b) bs
      else body_bytes cv2_ok st (b # bs))"

text \<open>
  The outer loop over the chunks that \<open>recv\<close> returns. When the chunks are used up the
  loop is waiting in \<open>recv\<close>.
\<close>

fun recv_loop :: "(byte list \<Rightarrow> bool) \<Rightarrow> cap_state \<Rightarrow> byte list list \<Rightarrow> outcome" where
  "recv_loop cv2_ok st [] = Reading st"
| "recv_loop cv2_ok st (chunk # chunks) =
     (if length chunk = 0 then recv_loop cv2_ok st chunks
      else (case chunk_loop cv2_ok st chunk of
              Reading st' \<Rightarrow> recv_loop cv2_ok st' chunks
            | Frame f \<Rightarrow> Frame f
            | Raised e \<Rightarrow> Raised e))"

definition screencap :: "(byte list \<Rightarrow> bool) \<Rightarrow> byte list list \<Rightarrow> outcome" where
  "screencap cv2_ok chunks = recv_loop cv2_ok init_state chunks"

text \<open>
  \<open>client_socket.close()\<close> is called on the path that returns the image only, after the
  \<open>cv2\<close> calls.
\<close>

definition socket_closed :: "outcome \<Rightarrow> bool" where
  "socket_closed r = (case r of Frame f \<Rightarrow> True | Reading st \<Rightarrow> False | Raised e \<Rightarrow> False)"

section \<open>Shell commands\<close>

text \<open>
  \<open>raw_shell\<close>. \<open>u8\<close> is the decoder for \<open>SHELL_ENCODING\<close> (\<open>None\<close> where it raises
  \<open>UnicodeDecodeError\<close>) and \<open>repr\<close> is Python's \<open>repr\<close> on a byte string.
\<close>

definition raw_shell ::
  "adb \<Rightarrow> (string list \<Rightarrow> 'w \<Rightarrow> proc \<times> 'w) \<Rightarrow> (string \<Rightarrow> string option) \<Rightarrow>
   (string \<Rightarrow> string option) \<Rightarrow> (string \<Rightarrow> string) \<Rightarrow>
   cmds \<Rightarrow> bool \<Rightarrow> bool \<Rightarrow> 'w \<Rightarrow> (error + string) \<times> 'w" where
  "raw_shell a exec dec u8 repr c ensure_unicode skip_error w =
     (case cmd a exec dec (CList (''shell'' # split_cmd c)) True False None skip_error w of
        (Inl e, w') \<Rightarrow> (Inl e, w')
      | (Inr out, w') \<Rightarrow>
          if \<not> ensure_unicode then (Inr out, w')
          else (case u8 out of
                  Some s \<Rightarrow> (Inr s, w')
                | None \<Rightarrow> (Inr (repr out), w')))"

definition isdigit :: "char \<Rightarrow> bool" where
  "isdigit c = (48 \<le> (of_char c :: nat) \<and> (of_char c :: nat) \<le> 57)"

text \<open>\<open>int\<close> on a string of decimal digits.\<close>

definition int_of_digits :: "string \<Rightarrow> int" where
  "int_of_digits ds = foldl (\<lambda>n c. 10 * n + (int (of_char c) - 48)) 0 ds"

text \<open>
  \<open>re.match("(.*)---(\d+)---$", out, re.DOTALL)\<close> on a string without trailing
  whitespace: the string has to end in three dashes, a non-empty run of digits and three
  dashes. Group 2 is the whole run of digits before the final dashes (the character before
  it has to be a dash) and group 1 is everything before the dashes in front of it.
\<close>

definition match_marker :: "string \<Rightarrow> (string \<times> string) option" where
  "match_marker out =
     (let r = rev out in
      if take 3 r \<noteq> ''---'' then None
      else
        (let ds = takeWhile isdigit (drop 3 r);
             r2 = dropWhile isdigit (drop 3 r)
         in if ds = [] then None
            else if take 3 r2 \<noteq> ''---'' then None
            else Some (rev (drop 3 r2), rev ds)))"

text \<open>
  \<open>shell\<close>. Both \<open>raise logger.error(...)\<close> statements raise the \<open>None\<close> that
  \<open>logger.error\<close> returns, which is a \<open>TypeError\<close>.
\<close>

definition shell ::
  "adb \<Rightarrow> (string list \<Rightarrow> 'w \<Rightarrow> proc \<times> 'w) \<Rightarrow> (string \<Rightarrow> string option) \<Rightarrow>
   (string \<Rightarrow> string option) \<Rightarrow> (string \<Rightarrow> string) \<Rightarrow>
   cmds \<Rightarrow> 'w \<Rightarrow> (error + string) \<times> 'w" where
  "shell a exec dec u8 repr c w =
     (if sdk_version a < 25 then
        (case raw_shell a exec dec u8 repr
                (CList (split_cmd c @ ['';'', ''echo'', ''---$?---''])) True False w of
           (Inl e, w') \<Rightarrow> (Inl e, w')
         | (Inr out0, w') \<Rightarrow>
             (let out = rstrip out0;
                  (stdout, returncode) =
                     (case match_marker out of
                        None \<Rightarrow> (out, 0)
                      | Some (g1, g2) \<Rightarrow> (g1, int_of_digits g2))
              in if returncode > 0 then (Inl TypeError, w') else (Inr stdout, w')))
      else
        (case raw_shell a exec dec u8 repr c True False w of
           (Inl e, w') \<Rightarrow>
             (case e of
                AdbError out err cs \<Rightarrow> (Inl TypeError, w')
              | _ \<Rightarrow> (Inl e, w'))
         | (Inr out, w') \<Rightarrow> (Inr out, w')))"

section \<open>Port forwards\<close>

record fwd =
  local :: string
  remote :: string

text \<open>\<open>str.splitlines()\<close>: the line boundaries among the code points below 256.\<close>

definition linebreak :: "char \<Rightarrow> bool" where
  "linebreak c = ((of_char c :: nat) \<in> {10, 11, 12, 13, 28, 29, 30, 133})"

function splitlines :: "string \<Rightarrow> string list" where
  "splitlines s =
     (if s = [] then []
      else (case dropWhile (\<lambda>c. \<not> linebreak c) s of
              [] \<Rightarrow> [s]
            | c # r \<Rightarrow>
                takeWhile (\<lambda>c. \<not> linebreak c) s
                # splitlines (if c = CHR 0x0D \<and> take 1 r = [CHR 0x0A] then tl r else r)))"
  by pat_completeness auto
termination
proof (relation "measure length")
  show "wf (measure length)" by simp
next
  fix s :: string and c r
  assume d: "dropWhile (\<lambda>c. \<not> linebreak c) s = c # r"
  have "length (c # r) \<le> length s"
    using d by (metis length_dropWhile_le)
  moreover have "length (tl r) \<le> length r" by simp
  ultimately show
    "(if c = CHR 0x0D \<and> take 1 r = [CHR 0x0A] then tl r else r, s) \<in> measure length"
    by auto
qed

declare splitlines.simps [simp del]

text \<open>The loop body of \<open>get_forwards\<close> on one line, and the loop.\<close>

definition forward_line :: "string \<Rightarrow> fwd option" where
  "forward_line line0 =
     (let line = strip line0 in
      if line = [] then None
      else (let cols = py_split line in
            if length cols \<noteq> 3 then None
            else Some \<lparr>local = cols ! 1, remote = cols ! 2\<rparr>))"

definition parse_forwards :: "string \<Rightarrow> fwd list" where
  "parse_forwards out = List.map_filter forward_line (splitlines out)"

definition get_forwards ::
  "adb \<Rightarrow> (string list \<Rightarrow> 'w \<Rightarrow> proc \<times> 'w) \<Rightarrow> (string \<Rightarrow> string option) \<Rightarrow>
   'w \<Rightarrow> (error + fwd list) \<times> 'w" where
  "get_forwards a exec dec w =
     (case cmd a exec dec (CList [''forward'', ''--list'']) False True None True w of
        (Inl e, w') \<Rightarrow> (Inl e, w')
      | (Inr out, w') \<Rightarrow> (Inr (parse_forwards out), w'))"

text \<open>\<open>if local:\<close> is false for \<open>None\<close> and for the empty string.\<close>

definition given :: "string option \<Rightarrow> string \<Rightarrow> bool" where
  "given arg v = (case arg of None \<Rightarrow> False | Some s \<Rightarrow> s \<noteq> [] \<and> v = s)"

text \<open>The loop of \<open>_local_in_forwards\<close> from index \<open>i\<close> on.\<close>

fun scan_forwards :: "string option \<Rightarrow> string option \<Rightarrow> nat \<Rightarrow> fwd list \<Rightarrow> bool \<times> nat option" where
  "scan_forwards lo re i [] = (False, None)"
| "scan_forwards lo re i (v # vs) =
     (if given lo (local v) then (True, Some i)
      else if given re (remote v) then (True, Some i)
      else scan_forwards lo re (Suc i) vs)"

definition local_in_forwards ::
  "adb \<Rightarrow> (string list \<Rightarrow> 'w \<Rightarrow> proc \<times> 'w) \<Rightarrow> (string \<Rightarrow> string option) \<Rightarrow>
   string option \<Rightarrow> string option \<Rightarrow> 'w \<Rightarrow> (error + bool \<times> nat option) \<times> 'w" where
  "local_in_forwards a exec dec lo re w =
     (case get_forwards a exec dec w of
        (Inl e, w') \<Rightarrow> (Inl e, w')
      | (Inr l, w') \<Rightarrow> (Inr (scan_forwards lo re 0 l), w'))"

text \<open>
  \<open>forward\<close>. In the branch that only logs, the list is fetched again and indexed with the
  index found before.
\<close>

definition forward ::
  "adb \<Rightarrow> (string list \<Rightarrow> 'w \<Rightarrow> proc \<times> 'w) \<Rightarrow> (string \<Rightarrow> string option) \<Rightarrow>
   string \<Rightarrow> string \<Rightarrow> bool \<Rightarrow> 'w \<Rightarrow> (error + unit) \<times> 'w" where
  "forward a exec dec lo re no_rebind w =
     (case local_in_forwards a exec dec (Some lo) (Some re) w of
        (Inl e, w1) \<Rightarrow> (Inl e, w1)
      | (Inr (is_use, index), w1) \<Rightarrow>
          if \<not> is_use then
            (case cmd a exec dec
                    (CList ([''forward''] @ (if no_rebind then [''--no-rebind''] else [])
                            @ [lo, re])) True True None False w1 of
               (Inl e, w2) \<Rightarrow> (Inl e, w2)
             | (Inr out, w2) \<Rightarrow> (Inr (), w2))
          else
            (case get_forwards a exec dec w1 of
               (Inl e, w2) \<Rightarrow> (Inl e, w2)
             | (Inr forward_local_using, w2) \<Rightarrow>
                 (case index of
                    None \<Rightarrow> (Inl TypeError, w2)
                  | Some i \<Rightarrow>
                      if i < length forward_local_using then (Inr (), w2)
                      else (Inl IndexError, w2))))"

subsection \<open>The bridge as the environment of the forward commands\<close>

text \<open>
  The bridge server keeps the table of forwards: rows of serial, local and remote. It is
  not part of the library; this is the behaviour of the \<open>forward\<close> subcommands that the
  library relies on. \<open>issued\<close> records every argument vector the bridge tool was launched
  with.
\<close>

record bridge =
  table :: "(string \<times> string \<times> string) list"
  issued :: "string list list"

definition valid_spec :: "string \<Rightarrow> bool" where
  "valid_spec s = (s \<noteq> [] \<and> (\<forall>c \<in> set s. \<not> isspace c))"

definition render_row :: "string \<times> string \<times> string \<Rightarrow> string" where
  "render_row row = (case row of (s, l, r) \<Rightarrow> s @ '' '' @ l @ '' '' @ r @ [CHR 0x0A])"

definition render :: "(string \<times> string \<times> string) list \<Rightarrow> string" where
  "render t = concat (map render_row t)"

definition succeeded :: "string \<Rightarrow> proc" where
  "succeeded out = \<lparr>stdout = out, stderr = [], returncode = 0, timed_out = False\<rparr>"

definition failed :: "string \<Rightarrow> proc" where
  "failed err = \<lparr>stdout = [], stderr = err, returncode = 1, timed_out = False\<rparr>"

definition bridge_forward ::
  "bool \<Rightarrow> string \<Rightarrow> string \<Rightarrow> string \<Rightarrow> bridge \<Rightarrow> proc \<times> bridge" where
  "bridge_forward no_rebind ser lo re w =
     (if \<not> valid_spec ser \<or> \<not> valid_spec lo \<or> \<not> valid_spec re then
        (failed ''error: bad forward specification'', w)
      else if lo \<in> set (map (\<lambda>row. fst (snd row)) (table w)) then
        (if no_rebind then (failed ''error: cannot rebind existing socket'', w)
         else (succeeded [],
               w\<lparr>table := map (\<lambda>row. if fst (snd row) = lo then (ser, lo, re) else row)
                              (table w)\<rparr>))
      else (succeeded [], w\<lparr>table := table w @ [(ser, lo, re)]\<rparr>))"

text \<open>The subcommand \<open>sub\<close>, addressed to the device \<open>ser\<close> when \<open>-s\<close> was given.\<close>

definition bridge_dispatch :: "string \<Rightarrow> string list \<Rightarrow> bridge \<Rightarrow> proc \<times> bridge" where
  "bridge_dispatch ser sub w =
     (if sub = [''forward'', ''--list''] then (succeeded (render (table w)), w)
      else if length sub = 4 \<and> take 2 sub = [''forward'', ''--no-rebind''] then
        bridge_forward True ser (sub ! 2) (sub ! 3) w
      else if length sub = 3 \<and> take 1 sub = [''forward''] \<and> sub ! 1 \<noteq> ''--remove'' then
        bridge_forward False ser (sub ! 1) (sub ! 2) w
      else if length sub = 3 \<and> take 2 sub = [''forward'', ''--remove''] then
        (if sub ! 2 \<in> set (map (\<lambda>row. fst (snd row)) (table w)) then
           (succeeded [], w\<lparr>table := filter (\<lambda>row. fst (snd row) \<noteq> sub ! 2) (table w)\<rparr>)
         else (failed ''error: listener not found'', w))
      else if sub = [''forward'', ''--remove-all''] then (succeeded [], w\<lparr>table := []\<rparr>)
      else (failed ''error: unknown command'', w))"

text \<open>
  One launch of the bridge tool: the argument vector is recorded, the options the library
  puts in front (\<open>cmd_options\<close> and \<open>-s <device_id>\<close>) are taken off, and the subcommand
  is carried out.
\<close>

definition bridge_exec :: "adb \<Rightarrow> string list \<Rightarrow> bridge \<Rightarrow> proc \<times> bridge" where
  "bridge_exec a argv w =
     (let rest = drop (length (cmd_options a)) argv;
          targeted = (take 1 rest = [''-s''] \<and> 2 \<le> length rest)
      in bridge_dispatch (if targeted then rest ! 1 else [])
           (if targeted then drop 2 rest else rest)
           (w\<lparr>issued := issued w @ [argv]\<rparr>))"

definition wf_bridge :: "bridge \<Rightarrow> bool" where
  "wf_bridge w =
     (\<forall>row \<in> set (table w). valid_spec (fst row) \<and> valid_spec (fst (snd row))
                              \<and> valid_spec (snd (snd row)))"

text \<open>The live forward list: what \<open>get_forwards\<close> reads from the bridge.\<close>

definition live :: "bridge \<Rightarrow> fwd list" where
  "live w = map (\<lambda>row. \<lparr>local = fst (snd row), remote = snd (snd row)\<rparr>) (table w)"

text \<open>The two argument vectors that \<open>forward\<close> launches the bridge tool with.\<close>

definition list_argv :: "adb \<Rightarrow> string list" where
  "list_argv a = cmd_options a @ [''forward'', ''--list'']"

definition forward_argv :: "adb \<Rightarrow> bool \<Rightarrow> string \<Rightarrow> string \<Rightarrow> string list" where
  "forward_argv a no_rebind lo re =
     cmd_options a @ [''-s'', device_id a] @ [''forward'']
       @ (if no_rebind then [''--no-rebind''] else []) @ [lo, re]"

text \<open>A device and a row of the forward table, for the examples.\<close>

abbreviation (input) dev :: adb where
  "dev \<equiv> \<lparr>device_id = ''emulator-5554'', cmd_options = [''adb''], sdk_version = 26\<rparr>"

abbreviation (input) minicap_row :: "string \<times> string \<times> string" where
  "minicap_row \<equiv> (''emulator-5554'', ''tcp:11111'', ''localabstract:minicap'')"

section \<open>Verified properties\<close>

subsection \<open>Display information\<close>












subsection \<open>Device state\<close>

text \<open>
  C6: \<open>get_status\<close> on a device (the device id is set, the child's output decodes):
  with return code 0 it returns the stripped standard output; otherwise, when
  \<open>not found\<close> occurs in the standard error, it returns \<open>None\<close>; for any other exit it
  raises \<open>AdbError\<close>.
\<close>

theorem get_status_cases:
  assumes "device_id a \<noteq> []"
    and "exec (cmd_options a @ [''-s'', device_id a, ''get-state'']) w = (p, w')"
    and "decode_streams dec True p = Inr (out, err)"
  shows "fst (get_status a exec dec w) =
           (if returncode p = 0 then Inr (Some (strip out))
            else if str_in ''not found'' err then Inr None
            else Inl (AdbError out err (CList [''get-state''])))"
proof -
  have "py_split ''get-state'' = [''get-state'']"
    by (simp add: py_split.simps isspace_def)
  with assms show ?thesis
    by (simp add: get_status_def start_cmd_def split_cmd_def)
qed

theorem get_status_cases_witness:
  "fst (get_status \<lparr>device_id = ''emulator-5554'', cmd_options = [''adb''], sdk_version = 26\<rparr>
          (\<lambda>argv w. (\<lparr>stdout = ''device'' @ [CHR 0x0A], stderr = [], returncode = 0,
                        timed_out = False\<rparr>, w))
          Some ())
     = Inr (Some ''device'')"
proof -
  let ?a = "\<lparr>device_id = ''emulator-5554'', cmd_options = [''adb''], sdk_version = 26\<rparr>"
  let ?p = "\<lparr>stdout = ''device'' @ [CHR 0x0A], stderr = [], returncode = 0, timed_out = False\<rparr>"
  let ?exec = "\<lambda>(argv :: string list) (w :: unit). (?p, w)"
  have h1: "device_id ?a \<noteq> []" by simp
  have h3: "decode_streams Some True ?p = Inr (''device'' @ [CHR 0x0A], [])"
    by (simp add: decode_streams_def)
  have h4: "strip (''device'' @ [CHR 0x0A]) = ''device''"
    by (simp add: strip_def lstrip_def rstrip_def isspace_def)
  from get_status_cases [where a = ?a and exec = ?exec and w = "()" and p = ?p and w' = "()"
      and dec = Some and out = "''device'' @ [CHR 0x0A]" and err = "[]"] h1 h3 h4
  show ?thesis by simp
qed

subsection \<open>Bridge invocations\<close>

text \<open>
  C3 (as amended): when the child was started, no timeout expired and its output decoded,
  \<open>cmd\<close> raises \<open>AdbError\<close> with the standard output, the standard error and the
  \<open>cmds\<close> argument exactly when the return code is greater than 0 and \<open>skip_error\<close> is
  not set; in every other case, a negative return code included, it returns the standard
  output.
\<close>

theorem cmd_returncode:
  assumes "start_cmd a exec c devices w = (Inr p, w')"
    and "\<not> (timeout_given timeout \<and> timed_out p)"
    and "decode_streams dec ensure_unicode p = Inr (out, err)"
  shows "fst (cmd a exec dec c devices ensure_unicode timeout skip_error w) =
           (if returncode p > 0 \<and> \<not> skip_error then Inl (AdbError out err c) else Inr out)"
  using assms by (simp add: cmd_def)

theorem cmd_returncode_witness:
  "fst (cmd \<lparr>device_id = ''emulator-5554'', cmd_options = [''adb''], sdk_version = 26\<rparr>
          (\<lambda>argv w. (\<lparr>stdout = [], stderr = ''error: closed'', returncode = 1,
                        timed_out = False\<rparr>, w))
          Some (CList [''pull'', ''/a'', ''b'']) True True None False ())
     = Inl (AdbError [] ''error: closed'' (CList [''pull'', ''/a'', ''b'']))"
proof -
  let ?a = "\<lparr>device_id = ''emulator-5554'', cmd_options = [''adb''], sdk_version = 26\<rparr>"
  let ?p = "\<lparr>stdout = [], stderr = ''error: closed'', returncode = 1, timed_out = False\<rparr>"
  let ?exec = "\<lambda>(argv :: string list) (w :: unit). (?p, w)"
  have h1: "start_cmd ?a ?exec (CList [''pull'', ''/a'', ''b'']) True () = (Inr ?p, ())"
    by (simp add: start_cmd_def split_cmd_def)
  have h2: "\<not> (timeout_given None \<and> timed_out ?p)" by (simp add: timeout_given_def)
  have h3: "decode_streams Some True ?p = Inr ([], ''error: closed'')"
    by (simp add: decode_streams_def)
  from cmd_returncode [OF h1 h2 h3, of False] show ?thesis by simp
qed

text \<open>
  A child killed by signal 9 has return code \<open>-9\<close>, which is different from 0; \<open>cmd\<close>
  returns its standard output without raising.
\<close>

theorem cmd_negative_returncode_counterexample:
  "returncode \<lparr>stdout = ''partial'', stderr = [], returncode = - 9, timed_out = False\<rparr> \<noteq> 0
   \<and> fst (cmd \<lparr>device_id = ''emulator-5554'', cmd_options = [''adb''], sdk_version = 26\<rparr>
          (\<lambda>argv w. (\<lparr>stdout = ''partial'', stderr = [], returncode = - 9,
                        timed_out = False\<rparr>, w))
          Some (CList [''pull'', ''/a'', ''b'']) True True None False ())
     = Inr ''partial''"
  by (simp add: cmd_def start_cmd_def split_cmd_def timeout_given_def decode_streams_def)

subsection \<open>Port reservation\<close>

lemma randint_range: "11111 \<le> randint 11111 20000 r \<and> randint 11111 20000 r \<le> 20000"
proof -
  have "r mod 8890 < 8890" by simp
  then show ?thesis by (simp add: randint_def)
qed

text \<open>
  C7: a port returned by \<open>get_available_forward_local\<close> lies between 11111 and 20000
  and is one on which the bind of some attempt succeeded.
\<close>

theorem reserved_port_in_range:
  "get_available_forward_local depth rnd bind k = Inr port \<Longrightarrow>
     11111 \<le> port \<and> port \<le> 20000 \<and> (\<exists>j\<ge>k. bind j port)"
proof (induction depth arbitrary: k)
  case 0
  then show ?case by simp
next
  case (Suc depth)
  show ?case
  proof (cases "bind k (randint 11111 20000 (rnd k))")
    case True
    with Suc.prems have "port = randint 11111 20000 (rnd k)" by (simp add: Let_def)
    with True randint_range [of "rnd k"] show ?thesis by auto
  next
    case False
    with Suc.prems have "get_available_forward_local depth rnd bind (Suc k) = Inr port"
      by (simp add: Let_def)
    from Suc.IH [OF this] show ?thesis
      using Suc_leD by blast
  qed
qed

theorem reserved_port_in_range_witness:
  "get_available_forward_local 3 (\<lambda>k. 5 * k) (\<lambda>k p. p = 11121) 0 = Inr 11121
   \<and> 11111 \<le> (11121::int) \<and> (11121::int) \<le> 20000 \<and> (\<exists>j\<ge>0::nat. (\<lambda>k p. p = (11121::int)) j 11121)"
proof -
  have h: "get_available_forward_local 3 (\<lambda>k. 5 * k) (\<lambda>k p. p = 11121) 0 = Inr 11121"
    by (simp add: numeral_3_eq_3 randint_def)
  from reserved_port_in_range [OF h] h show ?thesis by simp
qed





subsection \<open>Shell exit codes\<close>

lemma py_split_false: "py_split ''false'' = [''false'']"
  by (simp add: py_split.simps isspace_def)

text \<open>
  C5: \<open>shell("false")\<close>. With SDK level 22 the device prints the marker
  \<open>---1---\<close> and the bridge tool exits with 0; with SDK level 26 the bridge tool exits
  with 1. In both cases the exception that leaves \<open>shell\<close> is the \<open>TypeError\<close> of
  \<open>raise logger.error(...)\<close>: it carries no return code and it is not the \<open>AdbError\<close> of
  the bridge invocation.
\<close>

theorem shell_false_raises_type_error:
  "fst (shell \<lparr>device_id = ''emulator-5554'', cmd_options = [''adb''], sdk_version = 22\<rparr>
          (\<lambda>argv w. (\<lparr>stdout = ''---1---'' @ [CHR 0x0D, CHR 0x0A], stderr = [],
                        returncode = 0, timed_out = False\<rparr>, w))
          Some Some id (CStr ''false'') ()) = Inl TypeError
   \<and> fst (shell \<lparr>device_id = ''emulator-5554'', cmd_options = [''adb''], sdk_version = 26\<rparr>
          (\<lambda>argv w. (\<lparr>stdout = [], stderr = [], returncode = 1, timed_out = False\<rparr>, w))
          Some Some id (CStr ''false'') ()) = Inl TypeError"
proof -
  have m: "match_marker ''---1---'' = Some ([], ''1'')"
    by (simp add: match_marker_def isdigit_def)
  have r: "rstrip (''---1---'' @ [CHR 0x0D, CHR 0x0A]) = ''---1---''"
    by (simp add: rstrip_def isspace_def)
  show ?thesis
    by (simp add: shell_def raw_shell_def cmd_def start_cmd_def split_cmd_def py_split_false
        timeout_given_def decode_streams_def m r [simplified] int_of_digits_def)
qed

subsection \<open>The capture stream\<close>

text \<open>
  C2: the state of \<open>screencap\<close> after the 24 banner bytes of the scenario. Version,
  length and quirks are read; the bytes at offsets 6 to 22 are skipped, so both sizes and
  the orientation keep their initial value 0.
\<close>

theorem screencap_banner_fields:
  "screencap cv2_ok [[0x01, 0x18, 0x00, 0x00, 0x00, 0x00, 0x80, 0x07, 0x00, 0x00, 0x38, 0x04,
     0x00, 0x00, 0x80, 0x07, 0x00, 0x00, 0x38, 0x04, 0x00, 0x00, 0x01, 0x00]]
   = Reading \<lparr>readBannerBytes = 24, bannerLength = 24, readFrameBytes = 0,
       frameBodyLengthRemaining = 0, frameBody = EmptyStr,
       banner = \<lparr>version = 1, length_f = 24, pid = 0, realWidth = 0, realHeight = 0,
         virtualWidth = 0, virtualHeight = 0, orientation = 0, quirks = 0\<rparr>\<rparr>"
  by (simp add: screencap_def init_state_def init_banner_def banner_byte_def)

text \<open>
  A frame of two bytes \<open>00 00\<close> that arrives in two chunks: \<open>exit()\<close> raises
  \<open>SystemExit\<close> and the socket is not closed.
\<close>

theorem screencap_bad_frame_counterexample:
  "screencap (\<lambda>fb. True) [[0x01, 0x18, 0x00, 0x00, 0x00, 0x00, 0x80, 0x07, 0x00, 0x00, 0x38,
     0x04, 0x00, 0x00, 0x80, 0x07, 0x00, 0x00, 0x38, 0x04, 0x00, 0x00, 0x01, 0x00,
     0x02, 0x00, 0x00, 0x00, 0x00], [0x00]] = Raised SystemExit
   \<and> \<not> socket_closed (screencap (\<lambda>fb. True) [[0x01, 0x18, 0x00, 0x00, 0x00, 0x00, 0x80, 0x07,
     0x00, 0x00, 0x38, 0x04, 0x00, 0x00, 0x80, 0x07, 0x00, 0x00, 0x38, 0x04, 0x00, 0x00, 0x01,
     0x00, 0x02, 0x00, 0x00, 0x00, 0x00], [0x00]])"
  by (simp add: screencap_def init_state_def init_banner_def banner_byte_def length_byte_def
      body_bytes_def body_list_def check_soi_def socket_closed_def)

text \<open>An image is returned only after the check of the first two bytes of its frame.\<close>

lemma check_soi_Frame:
  "check_soi cv2_ok fb = Frame f \<Longrightarrow> f = fb \<and> take 2 fb = [0xff, 0xd8]"
  by (auto simp: check_soi_def split: list.splits if_splits)

lemma body_bytes_Frame: "body_bytes cv2_ok st rest = Frame f \<Longrightarrow> take 2 f = [0xff, 0xd8]"
  by (auto simp: body_bytes_def split: if_splits body.splits dest: check_soi_Frame)

lemma chunk_loop_Frame: "chunk_loop cv2_ok st c = Frame f \<Longrightarrow> take 2 f = [0xff, 0xd8]"
  by (induction c arbitrary: st) (auto split: if_splits dest: body_bytes_Frame)

lemma recv_loop_Frame: "recv_loop cv2_ok st chunks = Frame f \<Longrightarrow> take 2 f = [0xff, 0xd8]"
  by (induction chunks arbitrary: st)
     (auto split: if_splits outcome.splits dest: chunk_loop_Frame)

lemma check_soi_reject:
  "2 \<le> length fb \<Longrightarrow> take 2 fb \<noteq> [0xff, 0xd8] \<Longrightarrow> check_soi cv2_ok fb = Raised SystemExit"
  by (auto simp: check_soi_def split: list.splits)

text \<open>Reading a sequence of chunks continues from the state that a prefix has led to.\<close>

lemma recv_loop_append:
  "recv_loop cv2_ok st (xs @ ys) =
     (case recv_loop cv2_ok st xs of
        Reading st' \<Rightarrow> recv_loop cv2_ok st' ys
      | Frame f \<Rightarrow> Frame f
      | Raised e \<Rightarrow> Raised e)"
  by (induction xs arbitrary: st) (auto split: outcome.splits)


text \<open>
  Bytes are collected in \<open>frameBody\<close> only once the banner and the four length bytes
  have been read.
\<close>

lemma check_soi_not_Reading: "check_soi cv2_ok fb \<noteq> Reading s"
  by (simp add: check_soi_def split: list.splits)

lemma body_bytes_Reading:
  assumes "body_bytes cv2_ok st rest = Reading st'"
  shows "st' = st\<lparr>frameBody := Bytes (body_list (frameBody st) @ rest),
                    frameBodyLengthRemaining := frameBodyLengthRemaining st - length rest,
                    readFrameBytes := readFrameBytes st + length rest\<rparr>"
proof (cases "frameBodyLengthRemaining st \<le> length rest")
  case True
  with assms show ?thesis
    by (cases "frameBody st") (simp_all add: body_bytes_def check_soi_not_Reading)
next
  case False
  with assms show ?thesis by (simp add: body_bytes_def)
qed

lemma body_phase_chunk_loop:
  assumes "frameBody st = EmptyStr \<or> (bannerLength st \<le> readBannerBytes st \<and> 4 \<le> readFrameBytes st)"
    and "chunk_loop cv2_ok st c = Reading st'"
  shows "frameBody st' = EmptyStr \<or> (bannerLength st' \<le> readBannerBytes st' \<and> 4 \<le> readFrameBytes st')"
  using assms
proof (induction c arbitrary: st)
  case Nil
  then show ?case by simp
next
  case (Cons b bs)
  show ?case
  proof (cases "readBannerBytes st < bannerLength st")
    case True
    with Cons.prems(1) have e: "frameBody st = EmptyStr" by linarith
    from True Cons.prems(2) have c: "chunk_loop cv2_ok (banner_byte st b) bs = Reading st'"
      by simp
    have "frameBody (banner_byte st b) = EmptyStr"
      using e by (simp add: banner_byte_def Let_def)
    then have "frameBody (banner_byte st b) = EmptyStr
       \<or> (bannerLength (banner_byte st b) \<le> readBannerBytes (banner_byte st b)
           \<and> 4 \<le> readFrameBytes (banner_byte st b))" ..
    from Cons.IH [OF this c] show ?thesis .
  next
    case False
    show ?thesis
    proof (cases "readFrameBytes st < 4")
      case True
      with Cons.prems(1) have e: "frameBody st = EmptyStr" by linarith
      from True False Cons.prems(2)
      have c: "chunk_loop cv2_ok (length_byte st b) bs = Reading st'" by simp
      have "frameBody (length_byte st b) = EmptyStr"
        using e by (simp add: length_byte_def)
      then have "frameBody (length_byte st b) = EmptyStr
         \<or> (bannerLength (length_byte st b) \<le> readBannerBytes (length_byte st b)
             \<and> 4 \<le> readFrameBytes (length_byte st b))" ..
      from Cons.IH [OF this c] show ?thesis .
    next
      case f4: False
      with False Cons.prems(2) have "body_bytes cv2_ok st (b # bs) = Reading st'" by simp
      from body_bytes_Reading [OF this] False f4 show ?thesis by simp
    qed
  qed
qed

lemma body_phase_recv_loop:
  assumes "frameBody st = EmptyStr \<or> (bannerLength st \<le> readBannerBytes st \<and> 4 \<le> readFrameBytes st)"
    and "recv_loop cv2_ok st chunks = Reading st'"
  shows "frameBody st' = EmptyStr \<or> (bannerLength st' \<le> readBannerBytes st' \<and> 4 \<le> readFrameBytes st')"
  using assms
proof (induction chunks arbitrary: st)
  case Nil
  then show ?case by simp
next
  case (Cons chunk chunks)
  show ?case
  proof (cases "length chunk = 0")
    case True
    with Cons.prems have "recv_loop cv2_ok st chunks = Reading st'" by simp
    from Cons.IH [OF Cons.prems(1) this] show ?thesis .
  next
    case False
    with Cons.prems(2) obtain st1 where c: "chunk_loop cv2_ok st chunk = Reading st1"
      and r: "recv_loop cv2_ok st1 chunks = Reading st'"
      by (cases "chunk_loop cv2_ok st chunk") simp_all
    from Cons.IH [OF body_phase_chunk_loop [OF Cons.prems(1) c] r] show ?thesis .
  qed
qed

text \<open>
  C1 (as amended): \<open>screencap\<close> returns no image of a frame whose first two bytes are
  not \<open>FF D8\<close>. When the chunks \<open>pre\<close> received so far have left a body of bytes
  collected and the next chunk completes the frame, with at least two bytes of which the
  first two are not \<open>FF D8\<close>, then \<open>screencap\<close> raises the \<open>SystemExit\<close> of
  \<open>exit()\<close>, whatever follows.
\<close>

theorem screencap_rejects_non_jpeg:
  "(screencap cv2_ok chunks = Frame f \<longrightarrow> take 2 f = [0xff, 0xd8])
   \<and> (screencap cv2_ok pre = Reading st \<longrightarrow> frameBody st = Bytes bs \<longrightarrow> rest \<noteq> [] \<longrightarrow>
        frameBodyLengthRemaining st \<le> length rest \<longrightarrow>
        2 \<le> length (bs @ take (frameBodyLengthRemaining st) rest) \<longrightarrow>
        take 2 (bs @ take (frameBodyLengthRemaining st) rest) \<noteq> [0xff, 0xd8] \<longrightarrow>
        screencap cv2_ok (pre @ rest # later) = Raised SystemExit)"
proof (intro conjI impI)
  assume "screencap cv2_ok chunks = Frame f"
  then show "take 2 f = [0xff, 0xd8]"
    unfolding screencap_def by (rule recv_loop_Frame)
next
  assume pre: "screencap cv2_ok pre = Reading st" and fb: "frameBody st = Bytes bs"
    and ne: "rest \<noteq> []" and len: "frameBodyLengthRemaining st \<le> length rest"
    and two: "2 \<le> length (bs @ take (frameBodyLengthRemaining st) rest)"
    and bad: "take 2 (bs @ take (frameBodyLengthRemaining st) rest) \<noteq> [0xff, 0xd8]"
  have pre': "recv_loop cv2_ok init_state pre = Reading st"
    using pre by (simp add: screencap_def)
  have "frameBody init_state = EmptyStr" by (simp add: init_state_def)
  then have "frameBody init_state = EmptyStr
      \<or> (bannerLength init_state \<le> readBannerBytes init_state
          \<and> 4 \<le> readFrameBytes init_state)" ..
  from body_phase_recv_loop [OF this pre']
  have "frameBody st = EmptyStr
      \<or> (bannerLength st \<le> readBannerBytes st \<and> 4 \<le> readFrameBytes st)" .
  with fb have phase: "\<not> readBannerBytes st < bannerLength st" "\<not> readFrameBytes st < 4"
    by auto
  from ne obtain b r where rest: "rest = b # r" by (cases rest) auto
  have "body_bytes cv2_ok st rest = Raised SystemExit"
    using fb len check_soi_reject [OF two bad] by (simp add: body_bytes_def)
  with phase have "chunk_loop cv2_ok st rest = Raised SystemExit"
    by (simp add: rest)
  with ne have "recv_loop cv2_ok st (rest # later) = Raised SystemExit"
    by simp
  with pre' show "screencap cv2_ok (pre @ rest # later) = Raised SystemExit"
    by (simp only: screencap_def recv_loop_append outcome.case)
qed


theorem screencap_rejects_non_jpeg_witness:
  "screencap (\<lambda>fb. True) [[0x01, 0x18, 0x00, 0x00, 0x00, 0x00, 0x80, 0x07, 0x00, 0x00, 0x38,
     0x04, 0x00, 0x00, 0x80, 0x07, 0x00, 0x00, 0x38, 0x04, 0x00, 0x00, 0x01, 0x00,
     0x04, 0x00, 0x00, 0x00, 0xff], [0xd8, 0xff, 0xd9]] = Frame [0xff, 0xd8, 0xff, 0xd9]
   \<and> take 2 [0xff, 0xd8, 0xff, 0xd9 :: byte] = [0xff, 0xd8]
   \<and> screencap (\<lambda>fb. True) ([[0x01, 0x18, 0x00, 0x00, 0x00, 0x00, 0x80, 0x07, 0x00, 0x00, 0x38,
     0x04, 0x00, 0x00, 0x80, 0x07, 0x00, 0x00, 0x38, 0x04, 0x00, 0x00, 0x01, 0x00,
     0x04, 0x00, 0x00, 0x00, 0x00]] @ [0x00, 0xff, 0xd9] # [[0xff]]) = Raised SystemExit"
proof -
  let ?good = "[[0x01, 0x18, 0x00, 0x00, 0x00, 0x00, 0x80, 0x07, 0x00, 0x00, 0x38,
     0x04, 0x00, 0x00, 0x80, 0x07, 0x00, 0x00, 0x38, 0x04, 0x00, 0x00, 0x01, 0x00,
     0x04, 0x00, 0x00, 0x00, 0xff], [0xd8, 0xff, 0xd9 :: byte]]"
  let ?pre = "[[0x01, 0x18, 0x00, 0x00, 0x00, 0x00, 0x80, 0x07, 0x00, 0x00, 0x38,
     0x04, 0x00, 0x00, 0x80, 0x07, 0x00, 0x00, 0x38, 0x04, 0x00, 0x00, 0x01, 0x00,
     0x04, 0x00, 0x00, 0x00, 0x00 :: byte]]"
  let ?st = "\<lparr>readBannerBytes = 24, bannerLength = 24, readFrameBytes = 5,
       frameBodyLengthRemaining = 3, frameBody = Bytes [0x00],
       banner = \<lparr>version = 1, length_f = 24, pid = 0, realWidth = 0, realHeight = 0,
         virtualWidth = 0, virtualHeight = 0, orientation = 0, quirks = 0\<rparr>\<rparr>"
  have h1: "screencap (\<lambda>fb. True) ?good = Frame [0xff, 0xd8, 0xff, 0xd9]"
    by (simp add: screencap_def init_state_def init_banner_def banner_byte_def length_byte_def
      body_bytes_def body_list_def check_soi_def)
  have h2: "screencap (\<lambda>fb. True) ?pre = Reading ?st"
    by (simp add: screencap_def init_state_def init_banner_def banner_byte_def length_byte_def
      body_bytes_def body_list_def)
  have h3: "frameBody ?st = Bytes [0x00]" by simp
  have h4: "[0x00, 0xff, 0xd9 :: byte] \<noteq> []" by simp
  have h5: "frameBodyLengthRemaining ?st \<le> length [0x00, 0xff, 0xd9 :: byte]" by simp
  have h6: "2 \<le> length ([0x00] @ take (frameBodyLengthRemaining ?st) [0x00, 0xff, 0xd9 :: byte])"
    by simp
  have h7: "take 2 ([0x00] @ take (frameBodyLengthRemaining ?st) [0x00, 0xff, 0xd9 :: byte])
            \<noteq> [0xff, 0xd8]"
    by simp
  from screencap_rejects_non_jpeg [where cv2_ok = "\<lambda>fb. True" and chunks = ?good
      and f = "[0xff, 0xd8, 0xff, 0xd9]" and pre = ?pre and st = ?st and bs = "[0x00]"
      and rest = "[0x00, 0xff, 0xd9]" and later = "[[0xff]]"] h1 h2 h3 h4 h5 h6 h7
  show ?thesis by simp
qed

subsection \<open>Reading the forward list back from the bridge\<close>

text \<open>
  Splitting a line of three well-formed columns gives the columns back, and the loop of
  \<open>get_forwards\<close> reads a rendered table back row by row.
\<close>

lemma space_isspace: "isspace CHR '' ''"
  by (simp add: isspace_def)

lemma py_split_space: "isspace c \<Longrightarrow> py_split (c # u) = py_split u"
  by (simp add: py_split.simps [of "c # u"] py_split.simps [of u])

lemma py_split_nil: "py_split [] = []"
  by (simp add: py_split.simps)

lemma py_split_token:
  assumes "valid_spec t" and "isspace c"
  shows "py_split (t @ c # u) = t # py_split u"
proof -
  from assms(1) obtain x xs where t: "t = x # xs" and nx: "\<not> isspace x"
    and all: "\<And>y. y \<in> set t \<Longrightarrow> \<not> isspace y"
    by (cases t) (auto simp: valid_spec_def)
  have d: "dropWhile isspace (t @ c # u) = t @ c # u"
    using t nx by simp
  have tk: "takeWhile (\<lambda>x. \<not> isspace x) (t @ c # u) = t"
    using all assms(2) by simp
  have dr: "dropWhile (\<lambda>x. \<not> isspace x) (t @ c # u) = c # u"
    using all assms(2) by simp
  have "py_split (t @ c # u) = t # py_split (c # u)"
    using d tk dr t by (subst py_split.simps) simp
  with assms(2) show ?thesis by (simp add: py_split_space)
qed

lemma py_split_last_token:
  assumes "valid_spec t"
  shows "py_split t = [t]"
proof -
  from assms obtain x xs where t: "t = x # xs" and nx: "\<not> isspace x"
    and all: "\<And>y. y \<in> set t \<Longrightarrow> \<not> isspace y"
    by (cases t) (auto simp: valid_spec_def)
  have d: "dropWhile isspace t = t" using t nx by simp
  have tk: "takeWhile (\<lambda>x. \<not> isspace x) t = t" using all by simp
  have dr: "dropWhile (\<lambda>x. \<not> isspace x) t = []" using all by simp
  show ?thesis
    using d tk dr t by (subst py_split.simps) (simp add: py_split_nil)
qed

lemma strip_id:
  assumes "x \<noteq> []" and "\<not> isspace (hd x)" and "\<not> isspace (last x)"
  shows "strip x = x"
proof -
  have "dropWhile isspace (rev x) = rev x"
    using assms by (simp add: dropWhile_eq_self_iff hd_rev)
  then have "rstrip x = x" by (simp add: rstrip_def)
  moreover have "dropWhile isspace x = x"
    using assms by (simp add: dropWhile_eq_self_iff)
  ultimately show ?thesis by (simp add: strip_def lstrip_def)
qed

lemma valid_spec_ends:
  "valid_spec t \<Longrightarrow> t \<noteq> [] \<and> \<not> isspace (hd t) \<and> \<not> isspace (last t)"
  by (auto simp: valid_spec_def)

lemma forward_line_row:
  assumes "valid_spec s" and "valid_spec l" and "valid_spec r"
  shows "forward_line (s @ '' '' @ l @ '' '' @ r) = Some \<lparr>local = l, remote = r\<rparr>"
proof -
  let ?x = "s @ '' '' @ l @ '' '' @ r"
  have "strip ?x = ?x"
    using valid_spec_ends [OF assms(1)] valid_spec_ends [OF assms(3)]
    by (intro strip_id) simp_all
  moreover have "py_split ?x = [s, l, r]"
    using assms by (simp add: py_split_token py_split_last_token space_isspace)
  moreover have "?x \<noteq> []" using valid_spec_ends [OF assms(1)] by simp
  ultimately show ?thesis
    by (simp add: forward_line_def Let_def)
qed

lemma linebreak_isspace: "linebreak c \<Longrightarrow> isspace c"
  by (auto simp: linebreak_def isspace_def)

lemma splitlines_nil: "splitlines [] = []"
  by (simp add: splitlines.simps)

lemma splitlines_line:
  assumes "\<And>c. c \<in> set line \<Longrightarrow> \<not> linebreak c"
  shows "splitlines (line @ CHR 0x0A # u) = line # splitlines u"
proof -
  have lb: "linebreak (CHR 0x0A)" by (simp add: linebreak_def)
  have d: "dropWhile (\<lambda>c. \<not> linebreak c) (line @ CHR 0x0A # u) = CHR 0x0A # u"
    using assms lb by simp
  have t: "takeWhile (\<lambda>c. \<not> linebreak c) (line @ CHR 0x0A # u) = line"
    using assms lb by simp
  show ?thesis
    using d t by (subst splitlines.simps) simp
qed

lemma row_no_linebreak:
  assumes "valid_spec s" and "valid_spec l" and "valid_spec r"
    and "c \<in> set (s @ '' '' @ l @ '' '' @ r)"
  shows "\<not> linebreak c"
proof -
  have "\<not> linebreak CHR '' ''" by (simp add: linebreak_def)
  with assms show ?thesis
    by (auto simp: valid_spec_def dest: linebreak_isspace)
qed

lemma parse_forwards_render:
  assumes "\<forall>row \<in> set t. valid_spec (fst row) \<and> valid_spec (fst (snd row))
                              \<and> valid_spec (snd (snd row))"
  shows "parse_forwards (render t)
         = map (\<lambda>row. \<lparr>local = fst (snd row), remote = snd (snd row)\<rparr>) t"
  using assms
proof (induction t)
  case Nil
  then show ?case by (simp add: parse_forwards_def render_def splitlines_nil)
next
  case (Cons row t)
  obtain s l r where row: "row = (s, l, r)" by (cases row) auto
  from Cons.prems row have v: "valid_spec s" "valid_spec l" "valid_spec r" by simp_all
  have "render (row # t) = (s @ '' '' @ l @ '' '' @ r) @ CHR 0x0A # render t"
    by (simp add: render_def render_row_def row)
  then have "splitlines (render (row # t)) = (s @ '' '' @ l @ '' '' @ r) # splitlines (render t)"
    using splitlines_line [of "s @ '' '' @ l @ '' '' @ r" "render t"] row_no_linebreak [OF v]
    by simp
  moreover have "parse_forwards (render t)
         = map (\<lambda>row. \<lparr>local = fst (snd row), remote = snd (snd row)\<rparr>) t"
    using Cons by simp
  ultimately show ?case
    using forward_line_row [OF v] by (simp add: parse_forwards_def row)
qed

subsection \<open>The forward command against the bridge\<close>

lemma bridge_exec_list:
  "bridge_exec a (cmd_options a @ [''forward'', ''--list'']) w
     = (succeeded (render (table w)), w\<lparr>issued := issued w @ [cmd_options a @ [''forward'', ''--list'']]\<rparr>)"
  by (simp add: bridge_exec_def bridge_dispatch_def Let_def)

lemma get_forwards_bridge:
  assumes "wf_bridge w"
  shows "get_forwards a (bridge_exec a) Some w
     = (Inr (live w), w\<lparr>issued := issued w @ [cmd_options a @ [''forward'', ''--list'']]\<rparr>)"
proof -
  have "parse_forwards (render (table w)) = live w"
    using assms parse_forwards_render [of "table w"] by (simp add: wf_bridge_def live_def)
  then show ?thesis
    by (simp add: get_forwards_def cmd_def start_cmd_def split_cmd_def bridge_exec_list
        timeout_given_def decode_streams_def succeeded_def)
qed

lemma scan_forwards_index:
  "scan_forwards lo re k l = (b, idx) \<Longrightarrow>
     (b \<longrightarrow> (\<exists>i. idx = Some i \<and> k \<le> i \<and> i < k + length l)) \<and> (\<not> b \<longrightarrow> idx = None)"
proof (induction l arbitrary: k)
  case Nil
  then show ?case by auto
next
  case (Cons v vs)
  show ?case
  proof (cases "given lo (local v) \<or> given re (remote v)")
    case True
    with Cons.prems show ?thesis by (auto split: if_splits)
  next
    case False
    with Cons.prems have "scan_forwards lo re (Suc k) vs = (b, idx)" by simp
    from Cons.IH [OF this] show ?thesis by auto
  qed
qed

lemma scan_forwards_found:
  assumes "\<forall>e \<in> set l. local e \<noteq> [] \<and> remote e \<noteq> []"
  shows "fst (scan_forwards (Some lo) (Some re) k l)
         \<longleftrightarrow> (\<exists>e \<in> set l. local e = lo \<or> remote e = re)"
  using assms by (induction l arbitrary: k) (auto simp: given_def)

lemma live_nonempty:
  "wf_bridge w \<Longrightarrow> \<forall>e \<in> set (live w). local e \<noteq> [] \<and> remote e \<noteq> []"
  by (auto simp: wf_bridge_def live_def valid_spec_def)

lemma wf_bridge_issued: "wf_bridge (w\<lparr>issued := x\<rparr>) = wf_bridge w"
  by (simp add: wf_bridge_def)

lemma live_issued: "live (w\<lparr>issued := x\<rparr>) = live w"
  by (simp add: live_def)

lemma forward_in_use:
  assumes "wf_bridge w" and "\<exists>e \<in> set (live w). local e = lo \<or> remote e = re"
  shows "forward a (bridge_exec a) Some lo re no_rebind w
         = (Inr (), w\<lparr>issued := issued w @ [list_argv a, list_argv a]\<rparr>)"
proof -
  obtain b idx where s: "scan_forwards (Some lo) (Some re) 0 (live w) = (b, idx)"
    by (cases "scan_forwards (Some lo) (Some re) 0 (live w)") auto
  have "b" using scan_forwards_found [OF live_nonempty [OF assms(1)], of lo re 0] assms(2) s
    by simp
  with scan_forwards_index [OF s] obtain i where i: "idx = Some i" "i < length (live w)"
    by auto
  have g2: "get_forwards a (bridge_exec a) Some (w\<lparr>issued := issued w @ [list_argv a]\<rparr>)
     = (Inr (live w), w\<lparr>issued := issued w @ [list_argv a, list_argv a]\<rparr>)"
    using get_forwards_bridge [of "w\<lparr>issued := issued w @ [list_argv a]\<rparr>" a] assms(1)
    by (simp add: wf_bridge_issued live_issued list_argv_def)
  show ?thesis
    using get_forwards_bridge [OF assms(1), of a] s \<open>b\<close> i g2
    by (simp add: forward_def local_in_forwards_def list_argv_def)
qed

lemma bridge_forward_issued: "issued (snd (bridge_forward nr ser lo re w)) = issued w"
  by (simp add: bridge_forward_def)

lemma bridge_dispatch_issued: "issued (snd (bridge_dispatch ser sub w)) = issued w"
  by (simp add: bridge_dispatch_def bridge_forward_issued)

lemma bridge_exec_issued: "issued (snd (bridge_exec a argv w)) = issued w @ [argv]"
  by (simp add: bridge_exec_def Let_def bridge_dispatch_issued del: One_nat_def)

lemma bridge_exec_forward:
  "bridge_exec a (forward_argv a True lo re) w
     = bridge_forward True (device_id a) lo re (w\<lparr>issued := issued w @ [forward_argv a True lo re]\<rparr>)"
  by (simp add: bridge_exec_def bridge_dispatch_def forward_argv_def Let_def)

lemma cmd_world:
  assumes "device_id a \<noteq> []"
  shows "snd (cmd a exec dec (CList cs) True ensure_unicode timeout skip_error w)
         = snd (exec (cmd_options a @ [''-s'', device_id a] @ cs) w)"
  using assms
  by (simp add: cmd_def start_cmd_def split_cmd_def Let_def split: prod.splits sum.splits)

lemma forward_not_in_use:
  assumes "wf_bridge w" and "\<not> (\<exists>e \<in> set (live w). local e = lo \<or> remote e = re)"
    and "device_id a \<noteq> []"
  shows "issued (snd (forward a (bridge_exec a) Some lo re no_rebind w))
         = issued w @ [list_argv a, forward_argv a no_rebind lo re]"
proof -
  obtain b idx where s: "scan_forwards (Some lo) (Some re) 0 (live w) = (b, idx)"
    by (cases "scan_forwards (Some lo) (Some re) 0 (live w)") auto
  have nb: "\<not> b" using scan_forwards_found [OF live_nonempty [OF assms(1)], of lo re 0] assms(2) s
    by simp
  let ?w1 = "w\<lparr>issued := issued w @ [list_argv a]\<rparr>"
  let ?cs = "[''forward''] @ (if no_rebind then [''--no-rebind''] else []) @ [lo, re]"
  let ?r = "cmd a (bridge_exec a) Some (CList ?cs) True True None False ?w1"
  have argv: "cmd_options a @ [''-s'', device_id a] @ ?cs = forward_argv a no_rebind lo re"
    by (simp add: forward_argv_def)
  have c: "issued (snd ?r) = issued w @ [list_argv a, forward_argv a no_rebind lo re]"
    unfolding cmd_world [OF assms(3)] argv bridge_exec_issued
    by simp
  have "forward a (bridge_exec a) Some lo re no_rebind w
        = (case ?r of (Inl e, w2) \<Rightarrow> (Inl e, w2) | (Inr out, w2) \<Rightarrow> (Inr (), w2))"
    using get_forwards_bridge [OF assms(1), of a] s nb
    by (simp add: forward_def local_in_forwards_def list_argv_def split del: if_split)
  moreover have "snd (case ?r of (Inl e, w2) \<Rightarrow> (Inl e, w2) | (Inr out, w2) \<Rightarrow> (Inr (), w2))
                 = snd ?r"
    by (cases ?r; cases "fst ?r") (auto split del: if_split)
  ultimately show ?thesis using c by (simp split del: if_split)
qed

text \<open>The bridge keeps its table well-formed, and so does \<open>forward\<close>.\<close>

lemma bridge_forward_wf:
  "wf_bridge w \<Longrightarrow> wf_bridge (snd (bridge_forward nr ser lo re w))"
  by (auto simp: bridge_forward_def wf_bridge_def)

lemma bridge_dispatch_wf:
  "wf_bridge w \<Longrightarrow> wf_bridge (snd (bridge_dispatch ser sub w))"
  by (simp add: bridge_dispatch_def bridge_forward_wf) (simp add: wf_bridge_def)

lemma bridge_exec_wf:
  "wf_bridge w \<Longrightarrow> wf_bridge (snd (bridge_exec a argv w))"
  by (simp add: bridge_exec_def Let_def bridge_dispatch_wf wf_bridge_issued del: One_nat_def)

text \<open>
  When no entry is in the way and \<open>forward\<close> returns, the bridge has accepted the
  command and appended the row.
\<close>

lemma forward_created:
  assumes "wf_bridge w" and "\<not> (\<exists>e \<in> set (live w). local e = lo \<or> remote e = re)"
    and "forward a (bridge_exec a) Some lo re True w = (Inr (), w1)"
  shows "table w1 = table w @ [(device_id a, lo, re)]
         \<and> valid_spec (device_id a) \<and> valid_spec lo \<and> valid_spec re"
proof -
  obtain b idx where s: "scan_forwards (Some lo) (Some re) 0 (live w) = (b, idx)"
    by (cases "scan_forwards (Some lo) (Some re) 0 (live w)") auto
  have nb: "\<not> b" using scan_forwards_found [OF live_nonempty [OF assms(1)], of lo re 0] assms(2) s
    by simp
  let ?w1 = "w\<lparr>issued := issued w @ [list_argv a]\<rparr>"
  let ?r = "cmd a (bridge_exec a) Some (CList [''forward'', ''--no-rebind'', lo, re])
              True True None False ?w1"
  have f: "forward a (bridge_exec a) Some lo re True w
        = (case ?r of (Inl e, w2) \<Rightarrow> (Inl e, w2) | (Inr out, w2) \<Rightarrow> (Inr (), w2))"
    using get_forwards_bridge [OF assms(1), of a] s nb
    by (simp add: forward_def local_in_forwards_def list_argv_def)
  with assms(3) obtain out where r: "?r = (Inr out, w1)"
    by (auto split: prod.splits sum.splits)
  have d: "device_id a \<noteq> []"
  proof
    assume "device_id a = []"
    then have "fst ?r = Inl TypeError" by (simp add: cmd_def start_cmd_def split_cmd_def)
    with r show False by simp
  qed
  have argv: "cmd_options a @ [''-s'', device_id a] @ [''forward'', ''--no-rebind'', lo, re]
              = forward_argv a True lo re"
    by (simp add: forward_argv_def)
  let ?w2 = "?w1\<lparr>issued := issued ?w1 @ [forward_argv a True lo re]\<rparr>"
  obtain p w' where bf: "bridge_forward True (device_id a) lo re ?w2 = (p, w')"
    by (cases "bridge_forward True (device_id a) lo re ?w2") auto
  have e: "bridge_exec a (cmd_options a @ ''-s'' # device_id a # [''forward'', ''--no-rebind'', lo, re]) ?w1
           = (p, w')"
    using bridge_exec_forward [of a lo re ?w1] bf argv by simp
  from r d e have rc: "\<not> returncode p > 0" and w1: "w1 = w'"
    by (auto simp: cmd_def start_cmd_def split_cmd_def timeout_given_def decode_streams_def
        split: if_splits sum.splits prod.splits option.splits)
  from bf rc w1 show ?thesis
    by (auto simp: bridge_forward_def failed_def succeeded_def split: if_splits)
qed


lemma forward_wf:
  assumes "wf_bridge w" and "forward a (bridge_exec a) Some lo re True w = (Inr (), w1)"
  shows "wf_bridge w1"
proof (cases "\<exists>e \<in> set (live w). local e = lo \<or> remote e = re")
  case True
  from forward_in_use [OF assms(1) True, of a True] assms show ?thesis
    by (auto simp: wf_bridge_issued)
next
  case False
  from forward_created [OF assms(1) False assms(2)] assms(1) show ?thesis
    by (auto simp: wf_bridge_def)
qed

text \<open>
  C10: for a device and a well-formed forward table, \<open>forward local remote\<close> launches
  the bridge tool with the list query and then with the forward command if and only if no
  entry of the live list has that local and none has that remote; otherwise it only
  queries the list again. Consequently, once \<open>forward l1 remote\<close> has returned and the
  mapping of \<open>l1\<close> to \<open>remote\<close> is live, \<open>forward l2 remote\<close> returns without issuing a
  forward command and leaves the table as it is.
\<close>

theorem forward_issued_iff:
  assumes "wf_bridge w" and "device_id a \<noteq> []"
  shows "issued (snd (forward a (bridge_exec a) Some lo re no_rebind w))
           = issued w @ [list_argv a]
             @ (if \<exists>e \<in> set (live w). local e = lo \<or> remote e = re then [list_argv a]
                else [forward_argv a no_rebind lo re])
         \<and> (forward a (bridge_exec a) Some l1 re True w = (Inr (), w1) \<longrightarrow>
              \<lparr>local = l1, remote = re\<rparr> \<in> set (live w1) \<longrightarrow>
              forward a (bridge_exec a) Some l2 re True w1
                = (Inr (), w1\<lparr>issued := issued w1 @ [list_argv a, list_argv a]\<rparr>))"
proof (intro conjI impI)
  show "issued (snd (forward a (bridge_exec a) Some lo re no_rebind w))
           = issued w @ [list_argv a]
             @ (if \<exists>e \<in> set (live w). local e = lo \<or> remote e = re then [list_argv a]
                else [forward_argv a no_rebind lo re])"
  proof (cases "\<exists>e \<in> set (live w). local e = lo \<or> remote e = re")
    case True
    from forward_in_use [OF assms(1) True, of a no_rebind] True show ?thesis by simp
  next
    case False
    from forward_not_in_use [OF assms(1) False assms(2), of no_rebind] False show ?thesis
      by simp
  qed
next
  assume f: "forward a (bridge_exec a) Some l1 re True w = (Inr (), w1)"
    and m: "\<lparr>local = l1, remote = re\<rparr> \<in> set (live w1)"
  have wf1: "wf_bridge w1" by (rule forward_wf [OF assms(1) f])
  from m have "\<exists>e \<in> set (live w1). local e = l2 \<or> remote e = re"
    by (intro bexI [of _ "\<lparr>local = l1, remote = re\<rparr>"]) simp_all
  from forward_in_use [OF wf1 this]
  show "forward a (bridge_exec a) Some l2 re True w1
          = (Inr (), w1\<lparr>issued := issued w1 @ [list_argv a, list_argv a]\<rparr>)" .
qed

text \<open>
  C4 (as amended): when \<open>forward local remote\<close> with \<open>no_rebind\<close> has returned, a
  second call returns without error, issues only the two list queries and leaves the
  table as it is; and when no entry of the live list had that local or that remote before
  the first call, the live list afterwards contains the pair exactly once.
\<close>

theorem forward_twice:
  assumes "wf_bridge w" and "forward a (bridge_exec a) Some lo re True w = (Inr (), w1)"
  shows "forward a (bridge_exec a) Some lo re True w1
           = (Inr (), w1\<lparr>issued := issued w1 @ [list_argv a, list_argv a]\<rparr>)
         \<and> (\<not> (\<exists>e \<in> set (live w). local e = lo \<or> remote e = re) \<longrightarrow>
              count_list (live w1) \<lparr>local = lo, remote = re\<rparr> = 1)"
proof (cases "\<exists>e \<in> set (live w). local e = lo \<or> remote e = re")
  case True
  from forward_in_use [OF assms(1) True, of a True] assms(2)
  have w1: "w1 = w\<lparr>issued := issued w @ [list_argv a, list_argv a]\<rparr>" by simp
  then have "\<exists>e \<in> set (live w1). local e = lo \<or> remote e = re"
    using True by (simp add: live_issued)
  from forward_in_use [OF forward_wf [OF assms] this] True show ?thesis by simp
next
  case False
  from forward_created [OF assms(1) False assms(2)]
  have t: "table w1 = table w @ [(device_id a, lo, re)]" by simp
  then have l: "live w1 = live w @ [\<lparr>local = lo, remote = re\<rparr>]"
    by (simp add: live_def)
  then have "\<exists>e \<in> set (live w1). local e = lo \<or> remote e = re" by simp
  from forward_in_use [OF forward_wf [OF assms] this]
  have second: "forward a (bridge_exec a) Some lo re True w1
           = (Inr (), w1\<lparr>issued := issued w1 @ [list_argv a, list_argv a]\<rparr>)" .
  from False have "\<lparr>local = lo, remote = re\<rparr> \<notin> set (live w)" by force
  then have "count_list (live w) \<lparr>local = lo, remote = re\<rparr> = 0"
    by (simp add: count_list_0_iff)
  with l second show ?thesis by simp
qed


text \<open>The path on which the bridge accepts the forward command.\<close>

lemma forward_fresh:
  assumes "wf_bridge w" and "\<not> (\<exists>e \<in> set (live w). local e = lo \<or> remote e = re)"
    and "valid_spec (device_id a)" and "valid_spec lo" and "valid_spec re"
  shows "forward a (bridge_exec a) Some lo re True w
         = (Inr (), w\<lparr>issued := issued w @ [list_argv a, forward_argv a True lo re],
                       table := table w @ [(device_id a, lo, re)]\<rparr>)"
proof -
  obtain b idx where s: "scan_forwards (Some lo) (Some re) 0 (live w) = (b, idx)"
    by (cases "scan_forwards (Some lo) (Some re) 0 (live w)") auto
  have nb: "\<not> b" using scan_forwards_found [OF live_nonempty [OF assms(1)], of lo re 0] assms(2) s
    by simp
  have d: "device_id a \<noteq> []" using assms(3) by (simp add: valid_spec_def)
  have free: "lo \<notin> set (map (\<lambda>row. fst (snd row)) (table w))"
    using assms(2) by (force simp: live_def)
  let ?w1 = "w\<lparr>issued := issued w @ [list_argv a]\<rparr>"
  have argv: "cmd_options a @ ''-s'' # device_id a # [''forward'', ''--no-rebind'', lo, re]
              = forward_argv a True lo re"
    by (simp add: forward_argv_def)
  have e: "bridge_exec a (forward_argv a True lo re) ?w1
           = (succeeded [], w\<lparr>issued := issued w @ [list_argv a, forward_argv a True lo re],
                       table := table w @ [(device_id a, lo, re)]\<rparr>)"
    using assms(3,4,5) free by (simp add: bridge_exec_forward bridge_forward_def)
  have "cmd a (bridge_exec a) Some (CList [''forward'', ''--no-rebind'', lo, re])
              True True None False ?w1
        = (Inr [], w\<lparr>issued := issued w @ [list_argv a, forward_argv a True lo re],
                       table := table w @ [(device_id a, lo, re)]\<rparr>)"
    using d e argv
    by (simp add: cmd_def start_cmd_def split_cmd_def timeout_given_def decode_streams_def
        succeeded_def)
  then show ?thesis
    using get_forwards_bridge [OF assms(1), of a] s nb
    by (simp add: forward_def local_in_forwards_def list_argv_def)
qed

lemma example_specs:
  "valid_spec ''emulator-5554''" "valid_spec ''tcp:11111''" "valid_spec ''tcp:11112''"
  "valid_spec ''localabstract:minicap''"
  by (simp_all add: valid_spec_def isspace_def)

theorem forward_issued_iff_witness:
  "issued (snd (forward dev (bridge_exec dev) Some ''tcp:11111'' ''localabstract:minicap'' True
                  \<lparr>table = [], issued = []\<rparr>))
     = [list_argv dev, forward_argv dev True ''tcp:11111'' ''localabstract:minicap'']
   \<and> forward dev (bridge_exec dev) Some ''tcp:11112'' ''localabstract:minicap'' True
        \<lparr>table = [minicap_row],
          issued = [list_argv dev, forward_argv dev True ''tcp:11111'' ''localabstract:minicap'']\<rparr>
     = (Inr (), \<lparr>table = [minicap_row],
          issued = [list_argv dev, forward_argv dev True ''tcp:11111'' ''localabstract:minicap'',
                    list_argv dev, list_argv dev]\<rparr>)"
proof -
  let ?w = "\<lparr>table = [], issued = []\<rparr>"
  let ?w1 = "\<lparr>table = [minicap_row],
          issued = [list_argv dev, forward_argv dev True ''tcp:11111'' ''localabstract:minicap'']\<rparr>"
  have wf: "wf_bridge ?w" by (simp add: wf_bridge_def)
  have d: "device_id dev \<noteq> []" by simp
  have free: "\<not> (\<exists>e \<in> set (live ?w). local e = ''tcp:11111'' \<or> remote e = ''localabstract:minicap'')"
    by (simp add: live_def)
  have f: "forward dev (bridge_exec dev) Some ''tcp:11111'' ''localabstract:minicap'' True ?w
           = (Inr (), ?w1)"
    using forward_fresh [OF wf free, of dev] example_specs by simp
  have m: "\<lparr>local = ''tcp:11111'', remote = ''localabstract:minicap''\<rparr> \<in> set (live ?w1)"
    by (simp add: live_def)
  from forward_issued_iff [OF wf d, of "''tcp:11111''" "''localabstract:minicap''" True
      "''tcp:11111''" ?w1 "''tcp:11112''"] f m free
  show ?thesis by simp
qed

theorem forward_twice_witness:
  "forward dev (bridge_exec dev) Some ''tcp:11111'' ''localabstract:minicap'' True
        \<lparr>table = [minicap_row],
          issued = [list_argv dev, forward_argv dev True ''tcp:11111'' ''localabstract:minicap'']\<rparr>
     = (Inr (), \<lparr>table = [minicap_row],
          issued = [list_argv dev, forward_argv dev True ''tcp:11111'' ''localabstract:minicap'',
                    list_argv dev, list_argv dev]\<rparr>)
   \<and> count_list (live \<lparr>table = [minicap_row],
          issued = [list_argv dev, forward_argv dev True ''tcp:11111'' ''localabstract:minicap'']\<rparr>)
        \<lparr>local = ''tcp:11111'', remote = ''localabstract:minicap''\<rparr> = 1"
proof -
  let ?w = "\<lparr>table = [], issued = []\<rparr>"
  let ?w1 = "\<lparr>table = [minicap_row],
          issued = [list_argv dev, forward_argv dev True ''tcp:11111'' ''localabstract:minicap'']\<rparr>"
  have wf: "wf_bridge ?w" by (simp add: wf_bridge_def)
  have free: "\<not> (\<exists>e \<in> set (live ?w). local e = ''tcp:11111'' \<or> remote e = ''localabstract:minicap'')"
    by (simp add: live_def)
  have f: "forward dev (bridge_exec dev) Some ''tcp:11111'' ''localabstract:minicap'' True ?w
           = (Inr (), ?w1)"
    using forward_fresh [OF wf free, of dev] example_specs by simp
  from forward_twice [OF wf f] free show ?thesis by simp
qed

text \<open>
  The remote is already forwarded from another local port: both calls of
  \<open>forward ''tcp:11112'' ''localabstract:minicap''\<close> return without error, and the live
  list afterwards does not contain the pair.
\<close>

theorem forward_twice_taken_remote_counterexample:
  "forward dev (bridge_exec dev) Some ''tcp:11112'' ''localabstract:minicap'' True
        \<lparr>table = [minicap_row], issued = []\<rparr>
     = (Inr (), \<lparr>table = [minicap_row], issued = [list_argv dev, list_argv dev]\<rparr>)
   \<and> forward dev (bridge_exec dev) Some ''tcp:11112'' ''localabstract:minicap'' True
        \<lparr>table = [minicap_row], issued = [list_argv dev, list_argv dev]\<rparr>
     = (Inr (), \<lparr>table = [minicap_row],
                 issued = [list_argv dev, list_argv dev, list_argv dev, list_argv dev]\<rparr>)
   \<and> count_list (live \<lparr>table = [minicap_row],
                 issued = [list_argv dev, list_argv dev, list_argv dev, list_argv dev]\<rparr>)
        \<lparr>local = ''tcp:11112'', remote = ''localabstract:minicap''\<rparr> = 0"
proof -
  let ?w = "\<lparr>table = [minicap_row], issued = []\<rparr>"
  let ?w1 = "\<lparr>table = [minicap_row], issued = [list_argv dev, list_argv dev]\<rparr>"
  have wf: "wf_bridge ?w" "wf_bridge ?w1"
    using example_specs by (simp_all add: wf_bridge_def)
  have u: "\<exists>e \<in> set (live ?w). local e = ''tcp:11112'' \<or> remote e = ''localabstract:minicap''"
    "\<exists>e \<in> set (live ?w1). local e = ''tcp:11112'' \<or> remote e = ''localabstract:minicap''"
    by (simp_all add: live_def)
  from forward_in_use [OF wf(1) u(1), of dev True] forward_in_use [OF wf(2) u(2), of dev True]
  show ?thesis by (simp add: live_def)
qed

end
